theory Spec2Isabelle
  imports Main "HOL-Library.Multiset"
begin

section \<open>Language catalogue and directory language detection of package input\<close>

text \<open>
  This theory embeds \<^verbatim>\<open>input/lang.go\<close>: the two static tables \<^verbatim>\<open>langs\<close> and
  \<^verbatim>\<open>langExts\<close>, the functions \<^verbatim>\<open>Langs\<close>, \<^verbatim>\<open>DetectDirLang\<close>, \<^verbatim>\<open>getLangByExt\<close>
  and \<^verbatim>\<open>langIsSupported\<close>, and the three library functions they call.

  Conventions.
  \<^item> A Go \<^verbatim>\<open>string\<close> is a sequence of bytes; so is a HOL \<open>string\<close>.
  \<^item> A Go map is an association list with pairwise distinct keys. Go leaves the order
    in which \<^verbatim>\<open>range\<close> visits a map unspecified, so every loop over a map takes the
    order of its visit as an argument: a list \<open>es\<close> with \<open>map_range m es\<close>.
  \<^item> A Go \<^verbatim>\<open>(string, error)\<close> result is a pair of a string and an \<open>error option\<close>,
    \<open>None\<close> for \<^verbatim>\<open>nil\<close>.
  \<^item> A Go \<^verbatim>\<open>int\<close> that counts entries of a slice is an \<open>int\<close>: the length of a
    slice is itself an \<^verbatim>\<open>int\<close>, so such a counter never wraps.
\<close>

subsection \<open>Blocks\<close>

text \<open>
  Modelled from the spec: the struct \<^verbatim>\<open>block\<close> and the constants \<^verbatim>\<open>blockTypeString\<close>,
  \<^verbatim>\<open>blockTypeSComment\<close> and \<^verbatim>\<open>blockTypeMComment\<close> are declared in another file of the
  package. The fields are the four that the literals of \<^verbatim>\<open>langs\<close> set; the specification's
  Block Rule has the same four (kind, begin, end, escape) and a closed set of three kinds.
  A field that a literal leaves out holds Go's zero value, the empty string.
\<close>

datatype blockType = blockTypeString | blockTypeSComment | blockTypeMComment

record block =
  Type :: blockType
  Begin :: string
  End :: string
  Escape :: string

text \<open>The bytes that cannot be written inside a HOL string literal.\<close>

definition dquote :: string where "dquote = [CHR 0x22]"
definition squote :: string where "squote = [CHR 0x27]"
definition backquote :: string where "backquote = [CHR 0x60]"
definition backslash :: string where "backslash = [CHR 0x5C]"
definition newline :: string where "newline = [CHR 0x0A]"

subsection \<open>The tables\<close>

definition cStyle :: "block list" where
  "cStyle =
    [\<lparr>Type = blockTypeString, Begin = dquote, End = dquote, Escape = backslash\<rparr>,
     \<lparr>Type = blockTypeSComment, Begin = ''//'', End = '''', Escape = ''''\<rparr>,
     \<lparr>Type = blockTypeMComment, Begin = ''/*'', End = ''*/'', Escape = ''''\<rparr>]"

definition langs :: "(string \<times> block list) list" where
  "langs =
    [(''c#'', cStyle),
     (''c++'', cStyle),
     (''go'',
      [\<lparr>Type = blockTypeString, Begin = dquote, End = dquote, Escape = backslash\<rparr>,
       \<lparr>Type = blockTypeString, Begin = backquote, End = backquote, Escape = ''''\<rparr>,
       \<lparr>Type = blockTypeSComment, Begin = ''//'', End = '''', Escape = ''''\<rparr>,
       \<lparr>Type = blockTypeMComment, Begin = ''/*'', End = ''*/'', Escape = ''''\<rparr>]),
     (''java'', cStyle),
     (''javascript'',
      [\<lparr>Type = blockTypeString, Begin = dquote, End = dquote, Escape = backslash\<rparr>,
       \<lparr>Type = blockTypeString, Begin = squote, End = squote, Escape = backslash\<rparr>,
       \<lparr>Type = blockTypeSComment, Begin = ''//'', End = '''', Escape = ''''\<rparr>,
       \<lparr>Type = blockTypeMComment, Begin = ''/*'', End = ''*/'', Escape = ''''\<rparr>,
       \<lparr>Type = blockTypeString, Begin = ''/'', End = ''/'', Escape = backslash\<rparr>]),
     (''perl'',
      [\<lparr>Type = blockTypeString, Begin = dquote, End = dquote, Escape = backslash\<rparr>,
       \<lparr>Type = blockTypeString, Begin = squote, End = squote, Escape = backslash\<rparr>,
       \<lparr>Type = blockTypeSComment, Begin = ''#'', End = '''', Escape = ''''\<rparr>,
       \<lparr>Type = blockTypeMComment, Begin = newline @ ''=pod'' @ newline,
          End = newline @ ''=cut'' @ newline, Escape = ''''\<rparr>]),
     (''python'',
      [\<lparr>Type = blockTypeString, Begin = dquote, End = dquote, Escape = backslash\<rparr>,
       \<lparr>Type = blockTypeSComment, Begin = ''#'', End = '''', Escape = ''''\<rparr>]),
     (''php'',
      [\<lparr>Type = blockTypeString, Begin = dquote, End = dquote, Escape = backslash\<rparr>,
       \<lparr>Type = blockTypeString, Begin = squote, End = squote, Escape = backslash\<rparr>,
       \<lparr>Type = blockTypeSComment, Begin = ''//'', End = '''', Escape = ''''\<rparr>,
       \<lparr>Type = blockTypeMComment, Begin = ''/*'', End = ''*/'', Escape = ''''\<rparr>]),
     (''ruby'',
      [\<lparr>Type = blockTypeString, Begin = dquote, End = dquote, Escape = backslash\<rparr>,
       \<lparr>Type = blockTypeString, Begin = squote, End = squote, Escape = backslash\<rparr>,
       \<lparr>Type = blockTypeSComment, Begin = ''#'', End = '''', Escape = ''''\<rparr>,
       \<lparr>Type = blockTypeMComment, Begin = newline @ ''=begin'' @ newline,
          End = newline @ ''=end'' @ newline, Escape = ''''\<rparr>]),
     (''rust'', cStyle),
     (''swift'', cStyle)]"

definition langExts :: "(string \<times> string list) list" where
  "langExts =
    [(''c#'', [''.cs'']),
     (''c++'', [''.h'', ''.c'', ''.cpp'', ''.cxx'', ''hpp'']),
     (''go'', [''.go'']),
     (''java'', [''.java'']),
     (''javascript'', [''.js'']),
     (''perl'', [''.perl'', ''.prl'', ''.pl'']),
     (''php'', [''.php'']),
     (''python'', [''.py'']),
     (''ruby'', [''.rb'']),
     (''rust'', [''.rs'']),
     (''swift'', [''.swift''])]"

subsection \<open>Maps and the order of \<^verbatim>\<open>range\<close>\<close>

text \<open>
  \<open>map_range m es\<close>: the list \<open>es\<close> is an order in which a \<^verbatim>\<open>range\<close> loop may visit the
  map \<open>m\<close>: every entry of \<open>m\<close>, each key once.
\<close>

definition map_range :: "('k \<times> 'v) list \<Rightarrow> ('k \<times> 'v) list \<Rightarrow> bool" where
  "map_range m es \<longleftrightarrow> distinct (map fst es) \<and> set es = set m"

text \<open>\<^verbatim>\<open>m[k]++\<close> on a \<^verbatim>\<open>map[string]int\<close>: a key that is absent reads as 0 and is added.\<close>

fun incr :: "('k \<times> int) list \<Rightarrow> 'k \<Rightarrow> ('k \<times> int) list" where
  "incr [] k = [(k, 1)]"
| "incr ((k', v) # m) k = (if k' = k then (k', v + 1) # m else (k', v) # incr m k)"

subsection \<open>Library functions\<close>

text \<open>
  \<^verbatim>\<open>strings.ToLower\<close>, on bytes: the letters \<^verbatim>\<open>A\<close> to \<^verbatim>\<open>Z\<close> (65 to 90) move to
  \<^verbatim>\<open>a\<close> to \<^verbatim>\<open>z\<close>, every other byte stays. This is what Go computes for a string of
  ASCII bytes; for a string with a byte above 127 Go consults the Unicode tables of its
  library, which are not embedded here, and the model leaves such bytes as they are.
\<close>

definition toLowerByte :: "char \<Rightarrow> char" where
  "toLowerByte c =
    (let n = (of_char c :: nat) in if 65 \<le> n \<and> n \<le> 90 then char_of (n + 32) else c)"

definition ToLower :: "string \<Rightarrow> string" where
  "ToLower s = map toLowerByte s"

text \<open>
  \<^verbatim>\<open>filepath.Ext\<close> (with \<^verbatim>\<open>/\<close> as the path separator): the loop walks from the last
  byte towards the first, stops with the empty string at a separator, and returns the
  suffix that starts at the first dot it meets. \<open>Ext_loop rp suf\<close> has the bytes still
  to visit, last first, in \<open>rp\<close> and the bytes already passed in \<open>suf\<close>.
\<close>

fun Ext_loop :: "string \<Rightarrow> string \<Rightarrow> string" where
  "Ext_loop [] suf = ''''"
| "Ext_loop (c # rp) suf =
    (if c = CHR ''/'' then ''''
     else if c = CHR ''.'' then c # suf
     else Ext_loop rp (c # suf))"

definition Ext :: "string \<Rightarrow> string" where
  "Ext path = Ext_loop (rev path) ''''"

text \<open>
  \<^verbatim>\<open>os.FileInfo\<close>, with the two methods that \<^verbatim>\<open>DetectDirLang\<close> calls, and the result of
  \<^verbatim>\<open>ioutil.ReadDir\<close>: the error of the file system (of any type \<open>'e\<close>) or the entries.
\<close>

record FileInfo =
  Name :: string
  IsDir :: bool

type_synonym 'e ReadDir = "string \<Rightarrow> 'e + FileInfo list"

subsection \<open>Errors\<close>

text \<open>
  \<^verbatim>\<open>DetectDirLang\<close> returns the error of \<^verbatim>\<open>ioutil.ReadDir\<close> as it is (\<open>IOError\<close>), or
  one made by \<^verbatim>\<open>errors.New\<close> with the message that the directory holds no file of a
  supported language (\<open>NotFoundError\<close>; both \<^verbatim>\<open>errors.New\<close> calls carry the same message).
\<close>

datatype 'e error = IOError 'e | NotFoundError

subsection \<open>The functions of \<^verbatim>\<open>lang.go\<close>\<close>

text \<open>\<^verbatim>\<open>Langs\<close>: the keys of \<^verbatim>\<open>langs\<close>, appended in the order \<open>es\<close> of the visit.\<close>

fun Langs_loop :: "(string \<times> block list) list \<Rightarrow> string list \<Rightarrow> string list" where
  "Langs_loop [] ret = ret"
| "Langs_loop ((l, bs) # es) ret = Langs_loop es (ret @ [l])"

definition Langs :: "(string \<times> block list) list \<Rightarrow> string list" where
  "Langs es = Langs_loop es []"

text \<open>
  \<^verbatim>\<open>getLangByExt\<close>: the inner loop over one language's extensions, the outer loop over
  the table in the order \<open>es\<close> of the visit, and the function itself.
\<close>

fun exts_loop :: "string list \<Rightarrow> string \<Rightarrow> bool" where
  "exts_loop [] ext = False"
| "exts_loop (elem # exts) ext = (if elem = ext then True else exts_loop exts ext)"

fun langExts_loop :: "(string \<times> string list) list \<Rightarrow> string \<Rightarrow> string" where
  "langExts_loop [] ext = ''''"
| "langExts_loop ((lang, exts) # es) ext =
    (if exts_loop exts ext then lang else langExts_loop es ext)"

definition getLangByExt :: "(string \<times> string list) list \<Rightarrow> string \<Rightarrow> string" where
  "getLangByExt es ext = langExts_loop es (ToLower ext)"

text \<open>\<^verbatim>\<open>langIsSupported\<close>: the name is looked up in \<^verbatim>\<open>langs\<close> as it is given.\<close>

definition langIsSupported :: "string \<Rightarrow> bool" where
  "langIsSupported lang = (case map_of langs lang of None \<Rightarrow> False | Some bs \<Rightarrow> True)"

text \<open>
  \<^verbatim>\<open>DetectDirLang\<close>. Its first loop visits the entries \<open>fs\<close> in order; the \<open>i\<close>-th
  iteration calls \<^verbatim>\<open>getLangByExt\<close>, whose visit of \<^verbatim>\<open>langExts\<close> has the order
  \<open>sched i\<close>. Its second loop visits the tally in the order \<open>es\<close> and keeps the best
  language and count so far.
\<close>

fun files_loop ::
  "(nat \<Rightarrow> (string \<times> string list) list) \<Rightarrow> nat \<Rightarrow> FileInfo list \<Rightarrow>
    (string \<times> int) list \<Rightarrow> (string \<times> int) list" where
  "files_loop sched i [] langsMap = langsMap"
| "files_loop sched i (f # fs) langsMap =
    (if IsDir f then files_loop sched (Suc i) fs langsMap
     else
       let ext = ToLower (Ext (Name f));
           lang = getLangByExt (sched i) ext
       in if length lang > 0 then files_loop sched (Suc i) fs (incr langsMap lang)
          else files_loop sched (Suc i) fs langsMap)"

fun best_loop :: "(string \<times> int) list \<Rightarrow> string \<Rightarrow> int \<Rightarrow> string" where
  "best_loop [] lang cnt = lang"
| "best_loop ((k, v) # es) lang cnt =
    (if v \<ge> cnt then best_loop es k v else best_loop es lang cnt)"

definition DetectDirLang ::
  "'e ReadDir \<Rightarrow> (nat \<Rightarrow> (string \<times> string list) list) \<Rightarrow>
    ((string \<times> int) list \<Rightarrow> (string \<times> int) list) \<Rightarrow> string \<Rightarrow> string \<times> 'e error option" where
  "DetectDirLang readDir sched order dir =
    (case readDir dir of
       Inl err \<Rightarrow> ('''', Some (IOError err))
     | Inr fs \<Rightarrow>
         let langsMap = files_loop sched 0 fs [] in
         if length langsMap = 0 then ('''', Some NotFoundError)
         else
           let lang = best_loop (order langsMap) '''' 0 in
           if length lang > 0 then (lang, None) else ('''', Some NotFoundError))"

text \<open>
  The choices of the Go runtime that a run of \<^verbatim>\<open>DetectDirLang\<close> depends on: every
  \<open>sched i\<close> is an order of \<^verbatim>\<open>langExts\<close>, and \<open>order m\<close> is an order of the map \<open>m\<close>.
\<close>

definition runtime ::
  "(nat \<Rightarrow> (string \<times> string list) list) \<Rightarrow> ((string \<times> int) list \<Rightarrow> (string \<times> int) list) \<Rightarrow> bool" where
  "runtime sched order \<longleftrightarrow>
    (\<forall>i. map_range langExts (sched i)) \<and>
    (\<forall>m. distinct (map fst m) \<longrightarrow> map_range m (order m))"

subsection \<open>Votes\<close>

text \<open>
  The language of an entry's name, by the table in the order it is written, and the
  number of entries of a listing that are files of a language: the votes the language
  gets.
\<close>

definition fileLang :: "FileInfo \<Rightarrow> string" where
  "fileLang f = getLangByExt langExts (ToLower (Ext (Name f)))"

definition votes :: "FileInfo list \<Rightarrow> string \<Rightarrow> int" where
  "votes fs l = int (length (filter (\<lambda>f. \<not> IsDir f \<and> fileLang f = l) fs))"

section \<open>Lemmas about the loops\<close>

lemma toLowerByte_idem: "toLowerByte (toLowerByte c) = toLowerByte c"
  by (simp add: toLowerByte_def Let_def)

lemma ToLower_idem: "ToLower (ToLower s) = ToLower s"
  by (simp add: ToLower_def toLowerByte_idem)

lemma exts_loop_iff: "exts_loop exts ext \<longleftrightarrow> ext \<in> set exts"
  by (induction exts) auto

lemma langExts_loop_none:
  "\<forall>e\<in>set es. ext \<notin> set (snd e) \<Longrightarrow> langExts_loop es ext = ''''"
  by (induction es) (auto simp: exts_loop_iff)

lemma langExts_loop_some:
  "(l, exts) \<in> set es \<Longrightarrow> ext \<in> set exts \<Longrightarrow>
    \<exists>exts'. (langExts_loop es ext, exts') \<in> set es \<and> ext \<in> set exts'"
  by (induction es) (auto simp: exts_loop_iff)

lemma langExts_loop_order:
  assumes disj: "\<And>l1 x1 l2 x2. (l1, x1) \<in> set m \<Longrightarrow> (l2, x2) \<in> set m \<Longrightarrow> l1 \<noteq> l2 \<Longrightarrow> set x1 \<inter> set x2 = {}"
    and same: "set es = set m"
  shows "langExts_loop es ext = langExts_loop m ext"
proof (cases "\<exists>l exts. (l, exts) \<in> set m \<and> ext \<in> set exts")
  case True
  then obtain l exts where in_m: "(l, exts) \<in> set m" and ext: "ext \<in> set exts"
    by blast
  from in_m same have in_es: "(l, exts) \<in> set es"
    by simp
  from langExts_loop_some [OF in_es ext] obtain x1
    where r1: "(langExts_loop es ext, x1) \<in> set es" "ext \<in> set x1"
    by blast
  from langExts_loop_some [OF in_m ext] obtain x2
    where r2: "(langExts_loop m ext, x2) \<in> set m" "ext \<in> set x2"
    by blast
  from r1 same have r1': "(langExts_loop es ext, x1) \<in> set m"
    by simp
  show ?thesis
  proof (rule ccontr)
    assume "langExts_loop es ext \<noteq> langExts_loop m ext"
    from disj [OF r1' r2(1) this] r1(2) r2(2) show False
      by blast
  qed
next
  case False
  then have none_m: "\<forall>e\<in>set m. ext \<notin> set (snd e)"
    by auto
  then have none_es: "\<forall>e\<in>set es. ext \<notin> set (snd e)"
    using same by simp
  show ?thesis
    by (simp add: langExts_loop_none [OF none_es] langExts_loop_none [OF none_m])
qed

lemma distinct_concat_disjoint:
  "distinct (concat (map snd m)) \<Longrightarrow> distinct (map fst m) \<Longrightarrow>
    (l1, x1) \<in> set m \<Longrightarrow> (l2, x2) \<in> set m \<Longrightarrow> l1 \<noteq> l2 \<Longrightarrow> set x1 \<inter> set x2 = {}"
proof (induction m)
  case Nil
  then show ?case by simp
next
  case (Cons a m)
  then show ?case
    by (cases a) (auto 4 4)
qed

lemma langExts_keys: "distinct (map fst langExts)"
  by (simp add: langExts_def)

lemma langExts_exts: "distinct (concat (map snd langExts))"
  by (simp add: langExts_def)

lemma getLangByExt_order:
  assumes "map_range langExts es"
  shows "getLangByExt es ext = getLangByExt langExts ext"
  unfolding getLangByExt_def
proof (rule langExts_loop_order)
  show "set es = set langExts"
    using assms by (simp add: map_range_def)
  show "set x1 \<inter> set x2 = {}"
    if "(l1, x1) \<in> set langExts" "(l2, x2) \<in> set langExts" "l1 \<noteq> l2" for l1 x1 l2 x2
    using distinct_concat_disjoint [OF langExts_exts langExts_keys that] .
qed

lemma map_of_incr:
  "map_of (incr m k) = (map_of m)(k \<mapsto> (case map_of m k of None \<Rightarrow> 1 | Some v \<Rightarrow> v + 1))"
  by (induction m) auto

lemma keys_incr: "fst ` set (incr m k) = insert k (fst ` set m)"
  by (simp add: dom_map_of_conv_image_fst [symmetric] map_of_incr)

lemma distinct_incr: "distinct (map fst m) \<Longrightarrow> distinct (map fst (incr m k))"
  by (induction m) (auto simp: keys_incr)

lemma best_loop_less:
  "\<forall>e\<in>set es. snd e < cnt \<Longrightarrow> best_loop es lang cnt = lang"
  by (induction es arbitrary: lang cnt) auto

lemma best_loop_split:
  "\<exists>e\<in>set es. cnt \<le> snd e \<Longrightarrow>
    \<exists>pre v post. es = pre @ (best_loop es lang cnt, v) # post \<and> cnt \<le> v \<and>
      (\<forall>e\<in>set pre. snd e \<le> v) \<and> (\<forall>e\<in>set post. snd e < v)"
proof (induction es arbitrary: lang cnt)
  case Nil
  then show ?case by simp
next
  case (Cons a es)
  obtain k v where a: "a = (k, v)"
    by (cases a)
  show ?case
  proof (cases "cnt \<le> v")
    case True
    show ?thesis
    proof (cases "\<exists>e\<in>set es. v \<le> snd e")
      case later: True
      from Cons.IH [OF later, of k] obtain pre w post
        where "es = pre @ (best_loop es k v, w) # post" "v \<le> w"
          "\<forall>e\<in>set pre. snd e \<le> w" "\<forall>e\<in>set post. snd e < w"
        by blast
      then have "a # es = (a # pre) @ (best_loop (a # es) lang cnt, w) # post \<and> cnt \<le> w \<and>
          (\<forall>e\<in>set (a # pre). snd e \<le> w) \<and> (\<forall>e\<in>set post. snd e < w)"
        using True a by simp
      then show ?thesis by blast
    next
      case False
      then have "\<forall>e\<in>set es. snd e < v"
        by auto
      then have "best_loop es k v = k"
        by (rule best_loop_less)
      then have "a # es = [] @ (best_loop (a # es) lang cnt, v) # es \<and> cnt \<le> v \<and>
          (\<forall>e\<in>set []. snd e \<le> v) \<and> (\<forall>e\<in>set es. snd e < v)"
        using True a \<open>\<forall>e\<in>set es. snd e < v\<close> by simp
      then show ?thesis by blast
    qed
  next
    case False
    with Cons.prems a have later: "\<exists>e\<in>set es. cnt \<le> snd e"
      by auto
    from Cons.IH [OF later, of lang] obtain pre w post
      where "es = pre @ (best_loop es lang cnt, w) # post" "cnt \<le> w"
        "\<forall>e\<in>set pre. snd e \<le> w" "\<forall>e\<in>set post. snd e < w"
      by blast
    then have "a # es = (a # pre) @ (best_loop (a # es) lang cnt, w) # post \<and> cnt \<le> w \<and>
        (\<forall>e\<in>set (a # pre). snd e \<le> w) \<and> (\<forall>e\<in>set post. snd e < w)"
      using False a by simp
    then show ?thesis by blast
  qed
qed

lemma fileLang_sched:
  "map_range langExts es \<Longrightarrow> getLangByExt es (ToLower (Ext (Name f))) = fileLang f"
  by (simp add: fileLang_def getLangByExt_order)

lemma votes_Nil: "votes [] l = 0"
  by (simp add: votes_def)

lemma votes_Cons:
  "votes (f # fs) l = (if \<not> IsDir f \<and> fileLang f = l then 1 else 0) + votes fs l"
  by (simp add: votes_def)

lemma votes_nonneg: "0 \<le> votes fs l"
  by (simp add: votes_def)

lemma files_loop_distinct:
  "distinct (map fst m) \<Longrightarrow> distinct (map fst (files_loop sched i fs m))"
  by (induction fs arbitrary: i m) (auto simp: Let_def distinct_incr)

lemma files_loop_map_of:
  assumes "\<forall>i. map_range langExts (sched i)"
  shows "map_of (files_loop sched i fs m) l =
    (if l \<noteq> '''' \<and> 0 < votes fs l
     then Some ((case map_of m l of None \<Rightarrow> 0 | Some v \<Rightarrow> v) + votes fs l)
     else map_of m l)"
proof (induction fs arbitrary: i m l)
  case Nil
  then show ?case by (simp add: votes_Nil)
next
  case (Cons f fs)
  have lang: "getLangByExt (sched i) (ToLower (Ext (Name f))) = fileLang f"
    using assms by (simp add: fileLang_sched)
  show ?case
    using votes_nonneg [of fs l]
    by (auto simp: Let_def lang Cons.IH votes_Cons map_of_incr split: option.splits)
qed

lemma map_range_refl: "distinct (map fst m) \<Longrightarrow> map_range m m"
  by (simp add: map_range_def)

lemma runtime_id: "runtime (\<lambda>i. langExts) (\<lambda>m. m)"
  by (simp add: runtime_def map_range_refl langExts_keys)

lemma map_range_rev: "distinct (map fst m) \<Longrightarrow> map_range m (rev m)"
  by (simp add: map_range_def rev_map [symmetric])

lemma runtime_rev: "runtime (\<lambda>i. rev langExts) rev"
  by (simp add: runtime_def map_range_rev langExts_keys)

text \<open>The tally after the first loop, from the empty map.\<close>

lemma tally_distinct: "distinct (map fst (files_loop sched 0 fs []))"
  by (simp add: files_loop_distinct)

lemma tally_entry:
  assumes "\<forall>i. map_range langExts (sched i)"
  shows "(k, v) \<in> set (files_loop sched 0 fs []) \<longleftrightarrow> k \<noteq> '''' \<and> 0 < v \<and> v = votes fs k"
proof -
  have "(k, v) \<in> set (files_loop sched 0 fs []) \<longleftrightarrow> map_of (files_loop sched 0 fs []) k = Some v"
    using tally_distinct [of sched fs] by simp
  then show ?thesis
    by (auto simp: files_loop_map_of [OF assms])
qed

lemma tally_empty:
  assumes "\<forall>i. map_range langExts (sched i)"
  shows "files_loop sched 0 fs [] = [] \<longleftrightarrow> (\<forall>l. l \<noteq> '''' \<longrightarrow> votes fs l = 0)"
proof
  assume e: "files_loop sched 0 fs [] = []"
  show "\<forall>l. l \<noteq> '''' \<longrightarrow> votes fs l = 0"
  proof (intro allI impI)
    fix l :: string
    assume "l \<noteq> ''''"
    have "(l, votes fs l) \<notin> set (files_loop sched 0 fs [])"
      by (simp add: e)
    then show "votes fs l = 0"
      using tally_entry [OF assms, of l "votes fs l" fs] \<open>l \<noteq> ''''\<close> votes_nonneg [of fs l]
      by auto
  qed
next
  assume z: "\<forall>l. l \<noteq> '''' \<longrightarrow> votes fs l = 0"
  show "files_loop sched 0 fs [] = []"
  proof (cases "files_loop sched 0 fs []")
    case Nil
    then show ?thesis .
  next
    case (Cons a m)
    obtain k v where "a = (k, v)" by (cases a)
    with Cons have "(k, v) \<in> set (files_loop sched 0 fs [])" by simp
    with tally_entry [OF assms, of k v fs] z show ?thesis by auto
  qed
qed

lemma votes_pos_iff:
  "0 < votes fs l \<longleftrightarrow> (\<exists>f\<in>set fs. \<not> IsDir f \<and> fileLang f = l)"
  by (auto simp: votes_def filter_empty_conv)

text \<open>What DetectDirLang returns from a listing.\<close>

lemma DetectDirLang_Inl:
  "readDir dir = Inl err \<Longrightarrow> DetectDirLang readDir sched order dir = ('''', Some (IOError err))"
  by (simp add: DetectDirLang_def)

lemma DetectDirLang_none:
  assumes "runtime sched order" "readDir dir = Inr fs" "\<forall>l. l \<noteq> '''' \<longrightarrow> votes fs l = 0"
  shows "DetectDirLang readDir sched order dir = ('''', Some NotFoundError)"
proof -
  have "\<forall>i. map_range langExts (sched i)"
    using assms(1) by (simp add: runtime_def)
  from tally_empty [OF this, of fs] assms(3) have "files_loop sched 0 fs [] = []"
    by simp
  then show ?thesis
    by (simp add: DetectDirLang_def assms(2))
qed

lemma DetectDirLang_some:
  assumes rt: "runtime sched order" and rd: "readDir dir = Inr fs"
    and some: "l \<noteq> ''''" "0 < votes fs l"
  shows "\<exists>pre k post.
    order (files_loop sched 0 fs []) = pre @ (k, votes fs k) # post \<and>
    DetectDirLang readDir sched order dir = (k, None) \<and> k \<noteq> '''' \<and> 0 < votes fs k \<and>
    (\<forall>e\<in>set pre. snd e \<le> votes fs k) \<and> (\<forall>e\<in>set post. snd e < votes fs k)"
proof -
  let ?m = "files_loop sched 0 fs []"
  have sch: "\<forall>i. map_range langExts (sched i)"
    using rt by (simp add: runtime_def)
  have ord: "map_range ?m (order ?m)"
    using rt tally_distinct [of sched fs] by (simp add: runtime_def)
  have "(l, votes fs l) \<in> set ?m"
    using tally_entry [OF sch, of l "votes fs l" fs] some by simp
  then have ne: "?m \<noteq> []" and in_ord: "(l, votes fs l) \<in> set (order ?m)"
    using ord by (auto simp: map_range_def)
  then have "\<exists>e\<in>set (order ?m). 0 \<le> snd e"
    using some(2) by force
  from best_loop_split [OF this, of "''''"] obtain pre v post
    where sp: "order ?m = pre @ (best_loop (order ?m) '''' 0, v) # post"
      "\<forall>e\<in>set pre. snd e \<le> v" "\<forall>e\<in>set post. snd e < v"
    by blast
  let ?k = "best_loop (order ?m) '''' 0"
  have "(?k, v) \<in> set (order ?m)"
    by (subst sp(1)) simp
  then have "(?k, v) \<in> set ?m"
    using ord by (simp add: map_range_def)
  then have kv: "?k \<noteq> ''''" "0 < v" "v = votes fs ?k"
    using tally_entry [OF sch, of ?k v fs] by simp_all
  have "DetectDirLang readDir sched order dir = (?k, None)"
    using ne kv(1) by (simp add: DetectDirLang_def rd Let_def)
  then show ?thesis
    using sp kv by blast
qed

lemma DetectDirLang_max:
  assumes rt: "runtime sched order" and rd: "readDir dir = Inr fs"
    and res: "DetectDirLang readDir sched order dir = (lang, None)"
  shows "lang = best_loop (order (files_loop sched 0 fs [])) '''' 0"
    and "lang \<noteq> ''''" and "0 < votes fs lang"
    and "\<exists>pre post. order (files_loop sched 0 fs []) = pre @ (lang, votes fs lang) # post \<and>
      (\<forall>e\<in>set pre. snd e \<le> votes fs lang) \<and> (\<forall>e\<in>set post. snd e < votes fs lang)"
proof -
  have "\<exists>l. l \<noteq> '''' \<and> votes fs l \<noteq> 0"
  proof (rule ccontr)
    assume "\<not> ?thesis"
    then have "\<forall>l. l \<noteq> '''' \<longrightarrow> votes fs l = 0"
      by blast
    with DetectDirLang_none [of sched order readDir dir fs] rt rd res show False
      by simp
  qed
  then obtain l where "l \<noteq> ''''" "0 < votes fs l"
    using votes_nonneg [of fs] by (metis order_le_less)
  with DetectDirLang_some [of sched order readDir dir fs l] rt rd obtain pre k post
    where k: "order (files_loop sched 0 fs []) = pre @ (k, votes fs k) # post"
      "DetectDirLang readDir sched order dir = (k, None)" "k \<noteq> ''''" "0 < votes fs k"
      "\<forall>e\<in>set pre. snd e \<le> votes fs k" "\<forall>e\<in>set post. snd e < votes fs k"
    by blast
  from k(2) res have eq: "k = lang"
    by simp
  show "lang \<noteq> ''''" "0 < votes fs lang"
    using k(3,4) eq by simp_all
  show "\<exists>pre post. order (files_loop sched 0 fs []) = pre @ (lang, votes fs lang) # post \<and>
      (\<forall>e\<in>set pre. snd e \<le> votes fs lang) \<and> (\<forall>e\<in>set post. snd e < votes fs lang)"
    using k(1,5,6) eq by blast
  have "files_loop sched 0 fs [] \<noteq> []"
    using tally_empty [of sched fs] rt \<open>l \<noteq> ''''\<close> \<open>0 < votes fs l\<close>
    by (auto simp: runtime_def)
  then show "lang = best_loop (order (files_loop sched 0 fs [])) '''' 0"
    using res by (simp add: DetectDirLang_def rd Let_def split: if_splits)
qed

lemma files_loop_filter:
  assumes "\<forall>i. map_range langExts (sched i)"
  shows "files_loop sched i fs m =
    files_loop sched j (filter (\<lambda>f. \<not> IsDir f \<and> fileLang f \<noteq> '''') fs) m"
proof (induction fs arbitrary: i j m)
  case Nil
  then show ?case by simp
next
  case (Cons f fs)
  have lang: "getLangByExt (sched n) (ToLower (Ext (Name f))) = fileLang f" for n
    using assms by (simp add: fileLang_sched)
  show ?case
  proof (cases "\<not> IsDir f \<and> fileLang f \<noteq> ''''")
    case True
    then show ?thesis
      using Cons.IH [of "Suc i" "incr m (fileLang f)" "Suc j"] by (simp add: lang Let_def)
  next
    case False
    then show ?thesis
      using Cons.IH [of "Suc i" m j] by (auto simp: lang Let_def)
  qed
qed

lemma no_votes_iff:
  "(\<forall>l. l \<noteq> '''' \<longrightarrow> votes fs l = 0) \<longleftrightarrow> (\<forall>f\<in>set fs. IsDir f \<or> fileLang f = '''')"
proof
  assume z: "\<forall>l. l \<noteq> '''' \<longrightarrow> votes fs l = 0"
  show "\<forall>f\<in>set fs. IsDir f \<or> fileLang f = ''''"
  proof (rule ccontr)
    assume "\<not> ?thesis"
    then obtain f where f: "f \<in> set fs" "\<not> IsDir f" "fileLang f \<noteq> ''''"
      by blast
    then have "0 < votes fs (fileLang f)"
      by (auto simp: votes_pos_iff)
    with z f(3) show False
      by simp
  qed
next
  assume s: "\<forall>f\<in>set fs. IsDir f \<or> fileLang f = ''''"
  show "\<forall>l. l \<noteq> '''' \<longrightarrow> votes fs l = 0"
  proof (intro allI impI)
    fix l :: string
    assume "l \<noteq> ''''"
    with s have "\<not> 0 < votes fs l"
      by (auto simp: votes_pos_iff)
    then show "votes fs l = 0"
      using votes_nonneg [of fs l] by simp
  qed
qed

section \<open>The claims\<close>

subsection \<open>The C-style family\<close>

text \<open>
  Claim C9. The five languages that \<^verbatim>\<open>langs\<close> binds to \<^verbatim>\<open>cStyle\<close> (\<^verbatim>\<open>c#\<close>, \<^verbatim>\<open>c++\<close>,
  \<^verbatim>\<open>java\<close>, \<^verbatim>\<open>rust\<close> and \<^verbatim>\<open>swift\<close>) all have the same rule list, and that list is
  the canonical one: a string between double quotes with the backslash as escape, then
  the single-line comment \<^verbatim>\<open>//\<close>, then the multi-line comment between \<^verbatim>\<open>/*\<close> and
  \<^verbatim>\<open>*/\<close>, in this order.
\<close>

theorem C9_cstyle_family:
  "map_of langs ''c#'' = Some cStyle \<and> map_of langs ''c++'' = Some cStyle \<and>
   map_of langs ''java'' = Some cStyle \<and> map_of langs ''rust'' = Some cStyle \<and>
   map_of langs ''swift'' = Some cStyle \<and>
   cStyle =
     [\<lparr>Type = blockTypeString, Begin = [CHR 0x22], End = [CHR 0x22], Escape = [CHR 0x5C]\<rparr>,
      \<lparr>Type = blockTypeSComment, Begin = ''//'', End = '''', Escape = ''''\<rparr>,
      \<lparr>Type = blockTypeMComment, Begin = ''/*'', End = ''*/'', Escape = ''''\<rparr>]"
  by (simp add: langs_def cStyle_def dquote_def backslash_def)

subsection \<open>Ownership of extensions\<close>

text \<open>
  Claim C7. No two different languages of \<^verbatim>\<open>langExts\<close> list the same extension, and so
  the result of \<^verbatim>\<open>getLangByExt\<close> does not depend on the order in which \<^verbatim>\<open>range\<close> visits
  the table: any two orders give the same language for every extension.
\<close>

theorem C7_owner_unique:
  "(\<forall>l1 x1 l2 x2. (l1, x1) \<in> set langExts \<and> (l2, x2) \<in> set langExts \<and> l1 \<noteq> l2 \<longrightarrow>
      set x1 \<inter> set x2 = {}) \<and>
   (\<forall>es1 es2 ext. map_range langExts es1 \<and> map_range langExts es2 \<longrightarrow>
      getLangByExt es1 ext = getLangByExt es2 ext)"
proof (intro conjI allI impI)
  fix l1 x1 l2 x2
  assume "(l1, x1) \<in> set langExts \<and> (l2, x2) \<in> set langExts \<and> l1 \<noteq> l2"
  then show "set x1 \<inter> set x2 = {}"
    using distinct_concat_disjoint [OF langExts_exts langExts_keys] by blast
next
  fix es1 es2 ext
  assume "map_range langExts es1 \<and> map_range langExts es2"
  then show "getLangByExt es1 ext = getLangByExt es2 ext"
    by (simp add: getLangByExt_order)
qed

lemma getLangByExt_PL: "getLangByExt langExts ''.PL'' = ''perl''"
  by code_simp

theorem C7_owner_unique_witness:
  "map_range langExts langExts \<and> map_range langExts (rev langExts) \<and>
   getLangByExt (rev langExts) ''.PL'' = ''perl'' \<and>
   set [''.perl'', ''.prl'', ''.pl''] \<inter> set [''.py''] = {}"
proof -
  have r1: "map_range langExts langExts" and r2: "map_range langExts (rev langExts)"
    by (simp_all add: map_range_refl map_range_rev langExts_keys)
  have "getLangByExt langExts ''.PL'' = getLangByExt (rev langExts) ''.PL''"
    using C7_owner_unique r1 r2 by blast
  moreover have "(''perl'', [''.perl'', ''.prl'', ''.pl'']) \<in> set langExts"
    "(''python'', [''.py'']) \<in> set langExts"
    by (simp_all add: langExts_def)
  then have "set [''.perl'', ''.prl'', ''.pl''] \<inter> set [''.py''] = {}"
    using C7_owner_unique by blast
  ultimately show ?thesis
    using r1 r2 getLangByExt_PL by simp
qed

subsection \<open>Case of letters\<close>

text \<open>
  Claim C4 says that the lookup of an extension and the lookup of a language name both
  give the same result for a string and for its lower-case form. \<^verbatim>\<open>langIsSupported\<close>
  does not: it finds \<^verbatim>\<open>go\<close> and does not find \<^verbatim>\<open>GO\<close>.
\<close>

theorem C4_counterexample: "langIsSupported ''GO'' \<noteq> langIsSupported (ToLower ''GO'')"
  by code_simp

lemma map_of_langs_lower: "map_of langs l = Some bs \<Longrightarrow> ToLower l = l"
  by (simp add: langs_def ToLower_def toLowerByte_def split: if_splits)

text \<open>
  Claim C4, amended. \<^verbatim>\<open>getLangByExt\<close> gives the same language for an extension and for
  its lower-case form, whatever the order of the visit. \<^verbatim>\<open>langIsSupported\<close> looks the
  name up as it is given: a name it accepts is in lower case already.
\<close>

theorem C4_ext_lookup_case_insensitive:
  "getLangByExt es ext = getLangByExt es (ToLower ext) \<and>
   (langIsSupported lang \<longrightarrow> ToLower lang = lang)"
  by (auto simp: getLangByExt_def ToLower_idem langIsSupported_def map_of_langs_lower
      split: option.splits)

theorem C4_ext_lookup_case_insensitive_witness:
  "getLangByExt langExts ''.GO'' = getLangByExt langExts ''.go'' \<and>
   langIsSupported ''go'' \<and> ToLower ''go'' = ''go'' \<and> ToLower ''.GO'' = ''.go''"
proof -
  have low: "ToLower ''.GO'' = ''.go''"
    by code_simp
  have sup: "langIsSupported ''go''"
    by code_simp
  from C4_ext_lookup_case_insensitive [of langExts "''.GO''" "''go''"]
  have "getLangByExt langExts ''.GO'' = getLangByExt langExts (ToLower ''.GO'')"
    and "ToLower ''go'' = ''go''"
    using sup by simp_all
  then show ?thesis
    using low sup by simp
qed

subsection \<open>Success\<close>

text \<open>
  Claim C10. When the listing succeeds and at least one entry that is not a directory
  has an extension of a supported language, \<^verbatim>\<open>DetectDirLang\<close> returns a non-empty
  language name and no error. The last \<^verbatim>\<open>return\<close> of the function is not reached:
  every language of the tally has a non-empty name and a count of at least 1, so the
  second loop leaves a non-empty name in \<^verbatim>\<open>lang\<close>.
\<close>

theorem C10_success:
  assumes "runtime sched order" and "readDir dir = Inr fs"
    and "\<exists>f\<in>set fs. \<not> IsDir f \<and> fileLang f \<noteq> ''''"
  shows "(\<exists>lang. lang \<noteq> '''' \<and> DetectDirLang readDir sched order dir = (lang, None)) \<and>
    (\<forall>e\<in>set (files_loop sched 0 fs []). fst e \<noteq> '''' \<and> 1 \<le> snd e) \<and>
    files_loop sched 0 fs [] \<noteq> [] \<and>
    best_loop (order (files_loop sched 0 fs [])) '''' 0 \<noteq> ''''"
proof -
  from assms(3) obtain f where f: "f \<in> set fs" "\<not> IsDir f" "fileLang f \<noteq> ''''"
    by blast
  then have pos: "0 < votes fs (fileLang f)"
    by (auto simp: votes_pos_iff)
  have sch: "\<forall>i. map_range langExts (sched i)"
    using assms(1) by (simp add: runtime_def)
  from DetectDirLang_some [of sched order readDir dir fs "fileLang f"] assms(1,2) f(3) pos obtain k
    where k: "DetectDirLang readDir sched order dir = (k, None)" "k \<noteq> ''''"
    by blast
  have entries: "\<forall>e\<in>set (files_loop sched 0 fs []). fst e \<noteq> '''' \<and> 1 \<le> snd e"
  proof
    fix e
    assume "e \<in> set (files_loop sched 0 fs [])"
    then have "(fst e, snd e) \<in> set (files_loop sched 0 fs [])"
      by simp
    then show "fst e \<noteq> '''' \<and> 1 \<le> snd e"
      using tally_entry [OF sch, of "fst e" "snd e" fs] by simp
  qed
  have ne: "files_loop sched 0 fs [] \<noteq> []"
    using tally_empty [OF sch, of fs] f(3) pos by auto
  have "best_loop (order (files_loop sched 0 fs [])) '''' 0 \<noteq> ''''"
    using DetectDirLang_max(1) [of sched order readDir dir fs k] assms(1,2) k by simp
  with k entries ne show ?thesis
    by blast
qed

theorem C10_success_witness:
  "DetectDirLang (\<lambda>d. Inr [\<lparr>Name = ''src'', IsDir = True\<rparr>, \<lparr>Name = ''main.go'', IsDir = False\<rparr>]
      :: unit + FileInfo list) (\<lambda>i. langExts) (\<lambda>m. m) ''d'' = (''go'', None) \<and>
   files_loop (\<lambda>i. langExts) 0
     [\<lparr>Name = ''src'', IsDir = True\<rparr>, \<lparr>Name = ''main.go'', IsDir = False\<rparr>] [] = [(''go'', 1)] \<and>
   best_loop [(''go'', 1)] '''' 0 \<noteq> ''''"
proof -
  let ?fs = "[\<lparr>Name = ''src'', IsDir = True\<rparr>, \<lparr>Name = ''main.go'', IsDir = False\<rparr>]"
  let ?rd = "\<lambda>d. Inr ?fs :: unit + FileInfo list"
  have rd: "?rd ''d'' = Inr ?fs"
    by simp
  have src: "\<exists>f\<in>set ?fs. \<not> IsDir f \<and> fileLang f \<noteq> ''''"
    by code_simp
  have tally: "files_loop (\<lambda>i. langExts) 0 ?fs [] = [(''go'', 1)]"
    by code_simp
  have res: "DetectDirLang ?rd (\<lambda>i. langExts) (\<lambda>m. m) ''d'' = (''go'', None)"
    by code_simp
  from C10_success [of "\<lambda>i. langExts" "\<lambda>m. m" ?rd "''d''" ?fs, OF runtime_id rd src]
  have "best_loop (files_loop (\<lambda>i. langExts) 0 ?fs []) '''' 0 \<noteq> ''''"
    by blast
  then show ?thesis
    using tally res by simp
qed

subsection \<open>The choice among ties\<close>

text \<open>
  Claim C3. The second loop of \<^verbatim>\<open>DetectDirLang\<close> is one pass over the tally that
  replaces the best language so far whenever the count visited is greater than or equal
  to the best count so far. So the language returned holds a greatest count, and every
  entry visited after it holds a strictly smaller one: among the languages tied for the
  greatest count, the one visited last is returned.
\<close>

theorem C3_last_of_ties:
  assumes "runtime sched order" and "readDir dir = Inr fs"
    and "DetectDirLang readDir sched order dir = (lang, None)"
  shows "lang = best_loop (order (files_loop sched 0 fs [])) '''' 0 \<and>
    (\<forall>k v es l c. best_loop ((k, v) # es) l c =
       (if v \<ge> c then best_loop es k v else best_loop es l c)) \<and>
    (\<exists>pre v post. order (files_loop sched 0 fs []) = pre @ (lang, v) # post \<and>
       (\<forall>e\<in>set pre. snd e \<le> v) \<and> (\<forall>e\<in>set post. snd e < v))"
  using DetectDirLang_max(1,4) [of sched order readDir dir fs lang] assms
  by auto

theorem C3_last_of_ties_witness:
  "DetectDirLang (\<lambda>d. Inr [\<lparr>Name = ''a.go'', IsDir = False\<rparr>, \<lparr>Name = ''b.py'', IsDir = False\<rparr>]
      :: unit + FileInfo list) (\<lambda>i. langExts) (\<lambda>m. m) ''d'' = (''python'', None) \<and>
   DetectDirLang (\<lambda>d. Inr [\<lparr>Name = ''a.go'', IsDir = False\<rparr>, \<lparr>Name = ''b.py'', IsDir = False\<rparr>]
      :: unit + FileInfo list) (\<lambda>i. rev langExts) rev ''d'' = (''go'', None) \<and>
   files_loop (\<lambda>i. langExts) 0
     [\<lparr>Name = ''a.go'', IsDir = False\<rparr>, \<lparr>Name = ''b.py'', IsDir = False\<rparr>] [] =
     [(''go'', 1), (''python'', 1)] \<and>
   ''python'' = best_loop [(''go'', 1), (''python'', 1)] '''' 0 \<and>
   ''go'' = best_loop (rev [(''go'', 1), (''python'', 1)]) '''' 0"
proof -
  let ?fs = "[\<lparr>Name = ''a.go'', IsDir = False\<rparr>, \<lparr>Name = ''b.py'', IsDir = False\<rparr>]"
  let ?rd = "\<lambda>d. Inr ?fs :: unit + FileInfo list"
  have rd: "?rd ''d'' = Inr ?fs"
    by simp
  have tally1: "files_loop (\<lambda>i. langExts) 0 ?fs [] = [(''go'', 1), (''python'', 1)]"
    by code_simp
  have tally2: "files_loop (\<lambda>i. rev langExts) 0 ?fs [] = [(''go'', 1), (''python'', 1)]"
    by code_simp
  have res1: "DetectDirLang ?rd (\<lambda>i. langExts) (\<lambda>m. m) ''d'' = (''python'', None)"
    by code_simp
  have res2: "DetectDirLang ?rd (\<lambda>i. rev langExts) rev ''d'' = (''go'', None)"
    by code_simp
  from C3_last_of_ties [of "\<lambda>i. langExts" "\<lambda>m. m" ?rd "''d''" ?fs "''python''", OF runtime_id rd res1]
  have b1: "''python'' = best_loop [(''go'', 1), (''python'', 1)] '''' 0"
    unfolding tally1 by blast
  from C3_last_of_ties [of "\<lambda>i. rev langExts" rev ?rd "''d''" ?fs "''go''", OF runtime_rev rd res2]
  have b2: "''go'' = best_loop (rev [(''go'', 1), (''python'', 1)]) '''' 0"
    unfolding tally2 by blast
  show ?thesis
    by (intro conjI) (rule res1 res2 tally1 b1 b2)+
qed

subsection \<open>Entries that are skipped\<close>

text \<open>
  Claim C5. An entry that is a directory, and an entry whose extension belongs to no
  supported language, changes nothing: the tally, and so the result, is the one of the
  listing without these entries. When no entry of the listing counts, \<^verbatim>\<open>DetectDirLang\<close>
  returns no language and the error \<open>NotFoundError\<close>.
\<close>

theorem C5_skipped_entries:
  assumes "runtime sched order" and "readDir dir = Inr fs"
  shows "files_loop sched 0 fs [] =
      files_loop sched 0 (filter (\<lambda>f. \<not> IsDir f \<and> fileLang f \<noteq> '''') fs) [] \<and>
    DetectDirLang readDir sched order dir =
      DetectDirLang (\<lambda>d. Inr (filter (\<lambda>f. \<not> IsDir f \<and> fileLang f \<noteq> '''') fs)) sched order dir \<and>
    ((\<forall>f\<in>set fs. IsDir f \<or> fileLang f = '''') \<longrightarrow>
      DetectDirLang readDir sched order dir = ('''', Some NotFoundError))"
proof -
  have sch: "\<forall>i. map_range langExts (sched i)"
    using assms(1) by (simp add: runtime_def)
  have same: "files_loop sched 0 fs [] =
      files_loop sched 0 (filter (\<lambda>f. \<not> IsDir f \<and> fileLang f \<noteq> '''') fs) []"
    by (rule files_loop_filter [OF sch])
  have "DetectDirLang readDir sched order dir =
      DetectDirLang (\<lambda>d. Inr (filter (\<lambda>f. \<not> IsDir f \<and> fileLang f \<noteq> '''') fs)) sched order dir"
    unfolding DetectDirLang_def assms(2) using same by simp
  moreover have "DetectDirLang readDir sched order dir = ('''', Some NotFoundError)"
    if "\<forall>f\<in>set fs. IsDir f \<or> fileLang f = ''''"
    using DetectDirLang_none [of sched order readDir dir fs] assms that
    by (simp add: no_votes_iff)
  ultimately show ?thesis
    using same by blast
qed

theorem C5_skipped_entries_witness:
  "DetectDirLang (\<lambda>d. Inr [\<lparr>Name = ''lib.go'', IsDir = True\<rparr>, \<lparr>Name = ''notes.xyz'', IsDir = False\<rparr>,
      \<lparr>Name = ''README'', IsDir = False\<rparr>] :: unit + FileInfo list) (\<lambda>i. langExts) (\<lambda>m. m) ''d'' =
     ('''', Some NotFoundError) \<and>
   files_loop (\<lambda>i. langExts) 0 [\<lparr>Name = ''lib.go'', IsDir = True\<rparr>,
      \<lparr>Name = ''notes.xyz'', IsDir = False\<rparr>, \<lparr>Name = ''README'', IsDir = False\<rparr>] [] =
     files_loop (\<lambda>i. langExts) 0 [] []"
proof -
  let ?fs = "[\<lparr>Name = ''lib.go'', IsDir = True\<rparr>, \<lparr>Name = ''notes.xyz'', IsDir = False\<rparr>,
      \<lparr>Name = ''README'', IsDir = False\<rparr>]"
  let ?rd = "\<lambda>d. Inr ?fs :: unit + FileInfo list"
  have rd: "?rd ''d'' = Inr ?fs"
    by simp
  have skip: "\<forall>f\<in>set ?fs. IsDir f \<or> fileLang f = ''''"
    by code_simp
  then have flt: "filter (\<lambda>f. \<not> IsDir f \<and> fileLang f \<noteq> '''') ?fs = []"
    by (simp only: filter_empty_conv) blast
  from C5_skipped_entries [of "\<lambda>i. langExts" "\<lambda>m. m" ?rd "''d''" ?fs, OF runtime_id rd] skip
  have "DetectDirLang ?rd (\<lambda>i. langExts) (\<lambda>m. m) ''d'' = ('''', Some NotFoundError)"
    and "files_loop (\<lambda>i. langExts) 0 ?fs [] =
      files_loop (\<lambda>i. langExts) 0 (filter (\<lambda>f. \<not> IsDir f \<and> fileLang f \<noteq> '''') ?fs) []"
    by blast+
  then show ?thesis
    by (simp only: flt simp_thms)
qed

subsection \<open>Failures\<close>

text \<open>
  Claim C6. When \<^verbatim>\<open>ioutil.ReadDir\<close> fails, \<^verbatim>\<open>DetectDirLang\<close> returns the empty string
  and that same error, whatever the runtime would have chosen in the two loops: nothing
  is tallied. An error that \<^verbatim>\<open>DetectDirLang\<close> returns comes with the empty string and is
  either the error of \<^verbatim>\<open>ioutil.ReadDir\<close> or \<open>NotFoundError\<close>, the latter for a listing
  with no file of a supported language.
\<close>

theorem C6_failures:
  "(readDir dir = Inl err \<longrightarrow>
      (\<forall>sched' order'. DetectDirLang readDir sched' order' dir = ('''', Some (IOError err)))) \<and>
   (runtime sched order \<longrightarrow> DetectDirLang readDir sched order dir = (lang, Some e) \<longrightarrow>
      lang = '''' \<and>
      ((\<exists>err'. readDir dir = Inl err' \<and> e = IOError err') \<or>
       (\<exists>fs. readDir dir = Inr fs \<and> e = NotFoundError \<and>
          (\<forall>f\<in>set fs. IsDir f \<or> fileLang f = ''''))))"
proof (intro conjI impI allI)
  fix sched' order'
  assume "readDir dir = Inl err"
  then show "DetectDirLang readDir sched' order' dir = ('''', Some (IOError err))"
    by (rule DetectDirLang_Inl)
next
  assume rt: "runtime sched order" and res: "DetectDirLang readDir sched order dir = (lang, Some e)"
  show "lang = ''''"
    using res by (auto simp: DetectDirLang_def Let_def split: sum.splits if_splits)
  show "(\<exists>err'. readDir dir = Inl err' \<and> e = IOError err') \<or>
    (\<exists>fs. readDir dir = Inr fs \<and> e = NotFoundError \<and> (\<forall>f\<in>set fs. IsDir f \<or> fileLang f = ''''))"
  proof (cases "readDir dir")
    case (Inl err')
    with res DetectDirLang_Inl [of readDir dir err' sched order] show ?thesis
      by simp
  next
    case (Inr fs)
    have nf: "e = NotFoundError"
      using res Inr by (auto simp: DetectDirLang_def Let_def split: if_splits)
    have "\<forall>f\<in>set fs. IsDir f \<or> fileLang f = ''''"
    proof (rule ccontr)
      assume "\<not> ?thesis"
      then have "\<exists>f\<in>set fs. \<not> IsDir f \<and> fileLang f \<noteq> ''''"
        by blast
      then obtain f where f: "f \<in> set fs" "\<not> IsDir f" "fileLang f \<noteq> ''''"
        by blast
      then have "0 < votes fs (fileLang f)"
        by (auto simp: votes_pos_iff)
      with DetectDirLang_some [of sched order readDir dir fs "fileLang f"] rt Inr f(3) res
      show False
        by auto
    qed
    with Inr nf show ?thesis
      by blast
  qed
qed

theorem C6_failures_witness:
  "DetectDirLang (\<lambda>d. Inl ''permission denied'' :: string + FileInfo list) (\<lambda>i. []) (\<lambda>m. []) ''d'' =
     ('''', Some (IOError ''permission denied'')) \<and>
   DetectDirLang (\<lambda>d. Inr [\<lparr>Name = ''a.txt'', IsDir = False\<rparr>] :: string + FileInfo list)
     (\<lambda>i. langExts) (\<lambda>m. m) ''d'' = ('''', Some NotFoundError) \<and>
   (IsDir \<lparr>Name = ''a.txt'', IsDir = False\<rparr> \<or> fileLang \<lparr>Name = ''a.txt'', IsDir = False\<rparr> = '''')"
proof -
  let ?bad = "\<lambda>d. Inl ''permission denied'' :: string + FileInfo list"
  let ?fs = "[\<lparr>Name = ''a.txt'', IsDir = False\<rparr>]"
  let ?rd = "\<lambda>d. Inr ?fs :: string + FileInfo list"
  have res: "DetectDirLang ?rd (\<lambda>i. langExts) (\<lambda>m. m) ''d'' = ('''', Some NotFoundError)"
    by code_simp
  from C6_failures [of ?bad "''d''" "''permission denied''"]
  have io: "DetectDirLang ?bad (\<lambda>i. []) (\<lambda>m. []) ''d'' = ('''', Some (IOError ''permission denied''))"
    by blast
  from C6_failures [of ?rd "''d''" _ "\<lambda>i. langExts" "\<lambda>m. m" "''''" NotFoundError] runtime_id res
  have "\<exists>fs. ?rd ''d'' = Inr fs \<and> (\<forall>f\<in>set fs. IsDir f \<or> fileLang f = '''')"
    by blast
  then have "IsDir \<lparr>Name = ''a.txt'', IsDir = False\<rparr> \<or> fileLang \<lparr>Name = ''a.txt'', IsDir = False\<rparr> = ''''"
    by simp
  with io res show ?thesis
    by blast
qed

subsection \<open>The catalogue\<close>

lemma set_Langs_loop: "set (Langs_loop es ret) = set ret \<union> fst ` set es"
  by (induction es ret rule: Langs_loop.induct) auto

lemma set_Langs: "map_range langs ls \<Longrightarrow> set (Langs ls) = fst ` set langs"
  by (simp add: Langs_def set_Langs_loop map_range_def)

lemma langs_table_checked:
  "list_all (\<lambda>e. snd e \<noteq> [] \<and>
      (case map_of langExts (fst e) of
         None \<Rightarrow> False
       | Some exts \<Rightarrow> exts \<noteq> [] \<and> list_all (\<lambda>x. getLangByExt langExts x = fst e) exts)) langs"
  by code_simp

lemma langs_keys: "distinct (map fst langs)"
  by (simp add: langs_def)

text \<open>
  Claim C8. Every name that \<^verbatim>\<open>Langs\<close> returns has a non-empty rule list in \<^verbatim>\<open>langs\<close>,
  and every extension that \<^verbatim>\<open>langExts\<close> lists for it is an extension of that language
  for \<^verbatim>\<open>getLangByExt\<close>, in whatever order \<^verbatim>\<open>range\<close> visits the two tables.
\<close>

theorem C8_catalogue_consistent:
  assumes "map_range langs ls" and "map_range langExts es" and "l \<in> set (Langs ls)"
  shows "(\<exists>bs. map_of langs l = Some bs \<and> bs \<noteq> []) \<and>
    (\<exists>exts. map_of langExts l = Some exts \<and> exts \<noteq> [] \<and>
       (\<forall>x\<in>set exts. getLangByExt es x = l))"
proof -
  from assms(1,3) obtain bs where in_langs: "(l, bs) \<in> set langs"
    by (auto simp: set_Langs)
  then have lk: "map_of langs l = Some bs"
    using langs_keys by simp
  from langs_table_checked have "\<forall>e\<in>set langs. snd e \<noteq> [] \<and>
      (case map_of langExts (fst e) of
         None \<Rightarrow> False
       | Some exts \<Rightarrow> exts \<noteq> [] \<and> list_all (\<lambda>x. getLangByExt langExts x = fst e) exts)"
    by (simp only: list_all_iff)
  from bspec [OF this in_langs]
  have chk: "bs \<noteq> [] \<and> (case map_of langExts l of None \<Rightarrow> False
    | Some exts \<Rightarrow> exts \<noteq> [] \<and> list_all (\<lambda>x. getLangByExt langExts x = l) exts)"
    by (cases "map_of langExts l") simp_all
  then obtain exts where exts: "map_of langExts l = Some exts" "exts \<noteq> []"
    "\<forall>x\<in>set exts. getLangByExt langExts x = l"
    by (auto simp: list_all_iff split: option.splits)
  have "\<forall>x\<in>set exts. getLangByExt es x = l"
    using exts(3) by (simp add: getLangByExt_order [OF assms(2)])
  with lk chk exts(1,2) show ?thesis
    by blast
qed

theorem C8_catalogue_consistent_witness:
  "map_range langs (rev langs) \<and> map_range langExts (rev langExts) \<and>
   ''c++'' \<in> set (Langs (rev langs)) \<and> map_of langs ''c++'' = Some cStyle \<and> cStyle \<noteq> [] \<and>
   map_of langExts ''c++'' = Some [''.h'', ''.c'', ''.cpp'', ''.cxx'', ''hpp''] \<and>
   getLangByExt (rev langExts) ''.cxx'' = ''c++'' \<and> getLangByExt (rev langExts) ''hpp'' = ''c++''"
proof -
  have r1: "map_range langs (rev langs)" and r2: "map_range langExts (rev langExts)"
    by (simp_all add: map_range_rev langs_keys langExts_keys)
  have mem: "''c++'' \<in> set (Langs (rev langs))"
    by (simp add: set_Langs [OF r1]) (simp add: langs_def)
  have rules: "map_of langs ''c++'' = Some cStyle"
    by (simp add: langs_def)
  have exts: "map_of langExts ''c++'' = Some [''.h'', ''.c'', ''.cpp'', ''.cxx'', ''hpp'']"
    by (simp add: langExts_def)
  from C8_catalogue_consistent [OF r1 r2 mem]
  have "cStyle \<noteq> []"
    and "\<forall>x\<in>set [''.h'', ''.c'', ''.cpp'', ''.cxx'', ''hpp'']. getLangByExt (rev langExts) x = ''c++''"
    unfolding rules exts by simp_all
  then show ?thesis
    using r1 r2 mem rules exts by simp
qed

subsection \<open>The most votes\<close>

lemma DetectDirLang_votes_max:
  assumes rt: "runtime sched order" and rd: "readDir dir = Inr fs"
    and res: "DetectDirLang readDir sched order dir = (lang, None)"
  shows "(lang, votes fs lang) \<in> set (files_loop sched 0 fs [])"
    and "\<forall>e\<in>set (files_loop sched 0 fs []). snd e = votes fs (fst e) \<and> snd e \<le> votes fs lang"
proof -
  let ?m = "files_loop sched 0 fs []"
  have sch: "\<forall>i. map_range langExts (sched i)"
    using rt by (simp add: runtime_def)
  have ord: "set (order ?m) = set ?m"
    using rt tally_distinct [of sched fs] by (simp add: runtime_def map_range_def)
  from DetectDirLang_max(4) [of sched order readDir dir fs lang] rt rd res
  obtain pre post where sp: "order ?m = pre @ (lang, votes fs lang) # post"
    "\<forall>e\<in>set pre. snd e \<le> votes fs lang" "\<forall>e\<in>set post. snd e < votes fs lang"
    by blast
  have "(lang, votes fs lang) \<in> set (order ?m)"
    by (subst sp(1)) simp
  then show "(lang, votes fs lang) \<in> set ?m"
    by (simp add: ord)
  show "\<forall>e\<in>set ?m. snd e = votes fs (fst e) \<and> snd e \<le> votes fs lang"
  proof
    fix e
    assume e: "e \<in> set ?m"
    then have "(fst e, snd e) \<in> set ?m"
      by simp
    then have v: "snd e = votes fs (fst e)"
      using tally_entry [OF sch, of "fst e" "snd e" fs] by simp
    from e have "e \<in> set (pre @ (lang, votes fs lang) # post)"
      using ord sp(1) by simp
    then have "snd e \<le> votes fs lang"
      using sp(2,3) by auto
    with v show "snd e = votes fs (fst e) \<and> snd e \<le> votes fs lang"
      by simp
  qed
qed

lemma votes_mset:
  "votes fs l = int (size (filter_mset (\<lambda>p. \<not> snd p \<and> getLangByExt langExts (ToLower (fst p)) = l)
      (mset (map (\<lambda>f. (Ext (Name f), IsDir f)) fs))))"
proof -
  have "length (filter (\<lambda>f. \<not> IsDir f \<and> fileLang f = l) fs) =
      size (filter_mset (\<lambda>p. \<not> snd p \<and> getLangByExt langExts (ToLower (fst p)) = l)
        (mset (map (\<lambda>f. (Ext (Name f), IsDir f)) fs)))"
    by (induction fs) (simp_all add: fileLang_def)
  then show ?thesis
    by (simp add: votes_def)
qed

lemma getLangByExt_samples:
  "getLangByExt langExts (ToLower ''.go'') = ''go''"
  "getLangByExt langExts (ToLower ''.py'') = ''python''"
  "getLangByExt langExts (ToLower ''.xyz'') = ''''"
  by code_simp+

text \<open>
  Claim C2. The language that \<^verbatim>\<open>DetectDirLang\<close> returns is in the tally, and no
  language of the tally has a greater count; the count of a language is the number of
  entries of the listing that are files of that language. In particular, for a listing
  of three files with the extension \<^verbatim>\<open>.go\<close>, two with \<^verbatim>\<open>.py\<close> and one with \<^verbatim>\<open>.xyz\<close>, in
  any order and with any names, the result is \<^verbatim>\<open>go\<close> and no error.
\<close>

theorem C2_most_votes:
  assumes "runtime sched order" and "readDir dir = Inr fs"
  shows "(DetectDirLang readDir sched order dir = (lang, None) \<longrightarrow>
      (lang, votes fs lang) \<in> set (files_loop sched 0 fs []) \<and>
      (\<forall>e\<in>set (files_loop sched 0 fs []). snd e = votes fs (fst e) \<and> snd e \<le> votes fs lang)) \<and>
    (mset (map (\<lambda>f. (Ext (Name f), IsDir f)) fs) =
      mset [(''.go'', False), (''.go'', False), (''.go'', False),
            (''.py'', False), (''.py'', False), (''.xyz'', False)] \<longrightarrow>
      DetectDirLang readDir sched order dir = (''go'', None))"
proof (intro conjI impI)
  assume res: "DetectDirLang readDir sched order dir = (lang, None)"
  show "(lang, votes fs lang) \<in> set (files_loop sched 0 fs [])"
    using DetectDirLang_votes_max(1) [of sched order readDir dir fs lang] assms res by simp
  show "\<forall>e\<in>set (files_loop sched 0 fs []). snd e = votes fs (fst e) \<and> snd e \<le> votes fs lang"
    using DetectDirLang_votes_max(2) [of sched order readDir dir fs lang] assms res by blast
next
  assume listing: "mset (map (\<lambda>f. (Ext (Name f), IsDir f)) fs) =
      mset [(''.go'', False), (''.go'', False), (''.go'', False),
            (''.py'', False), (''.py'', False), (''.xyz'', False)]"
  have v: "votes fs l = (if l = ''go'' then 3 else 0) + (if l = ''python'' then 2 else 0) +
      (if l = '''' then 1 else 0)" for l
    unfolding votes_mset listing by (simp add: getLangByExt_samples)
  have go: "0 < votes fs ''go''"
    by (simp add: v)
  from DetectDirLang_some [of sched order readDir dir fs "''go''"] assms go
  obtain k where k: "DetectDirLang readDir sched order dir = (k, None)" "k \<noteq> ''''"
    by auto
  have sch: "\<forall>i. map_range langExts (sched i)"
    using assms(1) by (simp add: runtime_def)
  have "(''go'', votes fs ''go'') \<in> set (files_loop sched 0 fs [])"
    using tally_entry [OF sch, of "''go''" "votes fs ''go''" fs] go by simp
  with DetectDirLang_votes_max(2) [of sched order readDir dir fs k] assms k(1)
  have "votes fs ''go'' \<le> votes fs k"
    by fastforce
  then have "k = ''go''"
    using k(2) by (simp add: v split: if_splits)
  with k(1) show "DetectDirLang readDir sched order dir = (''go'', None)"
    by simp
qed

theorem C2_most_votes_witness:
  "DetectDirLang (\<lambda>d. Inr [\<lparr>Name = ''a.py'', IsDir = False\<rparr>, \<lparr>Name = ''main.go'', IsDir = False\<rparr>,
      \<lparr>Name = ''x.xyz'', IsDir = False\<rparr>, \<lparr>Name = ''b.go'', IsDir = False\<rparr>,
      \<lparr>Name = ''c.py'', IsDir = False\<rparr>, \<lparr>Name = ''d.go'', IsDir = False\<rparr>] :: unit + FileInfo list)
     (\<lambda>i. rev langExts) rev ''d'' = (''go'', None) \<and>
   files_loop (\<lambda>i. rev langExts) 0 [\<lparr>Name = ''a.py'', IsDir = False\<rparr>, \<lparr>Name = ''main.go'', IsDir = False\<rparr>,
      \<lparr>Name = ''x.xyz'', IsDir = False\<rparr>, \<lparr>Name = ''b.go'', IsDir = False\<rparr>,
      \<lparr>Name = ''c.py'', IsDir = False\<rparr>, \<lparr>Name = ''d.go'', IsDir = False\<rparr>] [] =
     [(''python'', 2), (''go'', 3)] \<and>
   votes [\<lparr>Name = ''a.py'', IsDir = False\<rparr>, \<lparr>Name = ''main.go'', IsDir = False\<rparr>,
      \<lparr>Name = ''x.xyz'', IsDir = False\<rparr>, \<lparr>Name = ''b.go'', IsDir = False\<rparr>,
      \<lparr>Name = ''c.py'', IsDir = False\<rparr>, \<lparr>Name = ''d.go'', IsDir = False\<rparr>] ''go'' = 3"
proof -
  let ?fs = "[\<lparr>Name = ''a.py'', IsDir = False\<rparr>, \<lparr>Name = ''main.go'', IsDir = False\<rparr>,
      \<lparr>Name = ''x.xyz'', IsDir = False\<rparr>, \<lparr>Name = ''b.go'', IsDir = False\<rparr>,
      \<lparr>Name = ''c.py'', IsDir = False\<rparr>, \<lparr>Name = ''d.go'', IsDir = False\<rparr>]"
  let ?rd = "\<lambda>d. Inr ?fs :: unit + FileInfo list"
  have rd: "?rd ''d'' = Inr ?fs"
    by simp
  have exts: "map (\<lambda>f. (Ext (Name f), IsDir f)) ?fs =
      [(''.py'', False), (''.go'', False), (''.xyz'', False), (''.go'', False),
       (''.py'', False), (''.go'', False)]"
    by (simp add: Ext_def)
  have listing: "mset (map (\<lambda>f. (Ext (Name f), IsDir f)) ?fs) =
      mset [(''.go'', False), (''.go'', False), (''.go'', False),
            (''.py'', False), (''.py'', False), (''.xyz'', False)]"
    unfolding exts by (simp add: add_mset_commute)
  have tally: "files_loop (\<lambda>i. rev langExts) 0 ?fs [] = [(''python'', 2), (''go'', 3)]"
    by code_simp
  from C2_most_votes [of "\<lambda>i. rev langExts" rev ?rd "''d''" ?fs "''go''", OF runtime_rev rd] listing
  have res: "DetectDirLang ?rd (\<lambda>i. rev langExts) rev ''d'' = (''go'', None)"
    and "DetectDirLang ?rd (\<lambda>i. rev langExts) rev ''d'' = (''go'', None) \<longrightarrow>
      (''go'', votes ?fs ''go'') \<in> set (files_loop (\<lambda>i. rev langExts) 0 ?fs [])"
    by blast+
  then have "(''go'', votes ?fs ''go'') \<in> set [(''python'', 2), (''go'', 3)]"
    unfolding tally by blast
  then have "votes ?fs ''go'' = 3"
    by simp
  with res tally show ?thesis
    by blast
qed

subsection \<open>From an extension of the table back to its language\<close>

lemma Ext_loop_shape:
  "Ext_loop rp suf = '''' \<or> (\<exists>t. Ext_loop rp suf = CHR ''.'' # t @ suf)"
proof (induction rp arbitrary: suf)
  case Nil
  then show ?case by simp
next
  case (Cons c rp)
  consider "c = CHR ''/''" | "c \<noteq> CHR ''/''" "c = CHR ''.''" | "c \<noteq> CHR ''/''" "c \<noteq> CHR ''.''"
    by blast
  then show ?case
  proof cases
    case 1
    then show ?thesis by simp
  next
    case 2
    then have "Ext_loop (c # rp) suf = CHR ''.'' # [] @ suf"
      by simp
    then show ?thesis by blast
  next
    case 3
    from Cons.IH [of "c # suf"] show ?thesis
    proof
      assume "Ext_loop rp (c # suf) = ''''"
      with 3 show ?thesis by simp
    next
      assume "\<exists>t. Ext_loop rp (c # suf) = CHR ''.'' # t @ c # suf"
      then obtain t where "Ext_loop rp (c # suf) = CHR ''.'' # (t @ [c]) @ suf"
        by auto
      with 3 have "Ext_loop (c # rp) suf = CHR ''.'' # (t @ [c]) @ suf"
        by simp
      then show ?thesis by blast
    qed
  qed
qed

lemma Ext_hpp:
  "Ext (pre @ ''hpp'') = '''' \<or> (\<exists>t. Ext (pre @ ''hpp'') = CHR ''.'' # t @ ''hpp'')"
  using Ext_loop_shape [of "rev pre" "''hpp''"] by (simp add: Ext_def)

lemma ToLower_dot_hpp: "ToLower (CHR ''.'' # t @ ''hpp'') = CHR ''.'' # ToLower t @ ''hpp''"
  by (simp add: ToLower_def toLowerByte_def)

lemma dot_hpp_not_listed:
  "\<forall>e\<in>set langExts. CHR ''.'' # t @ ''hpp'' \<notin> set (snd e)"
proof -
  have "rev x \<noteq> rev (CHR ''.'' # t @ ''hpp'')"
    if "x \<in> set (concat (map snd langExts))" for x
    using that by (auto simp: langExts_def)
  then have "CHR ''.'' # t @ ''hpp'' \<notin> set (concat (map snd langExts))"
    by blast
  then show ?thesis
    by auto
qed

lemma fileLang_hpp: "fileLang \<lparr>Name = pre @ ''hpp'', IsDir = d\<rparr> = ''''"
proof -
  have "langExts_loop langExts (ToLower (Ext (pre @ ''hpp''))) = ''''"
    using Ext_hpp [of pre]
  proof
    assume "Ext (pre @ ''hpp'') = ''''"
    then show ?thesis
      by (simp add: ToLower_def langExts_def)
  next
    assume "\<exists>t. Ext (pre @ ''hpp'') = CHR ''.'' # t @ ''hpp''"
    then obtain t where "Ext (pre @ ''hpp'') = CHR ''.'' # t @ ''hpp''"
      by blast
    then show ?thesis
      using langExts_loop_none [OF dot_hpp_not_listed [of "ToLower t"]]
      by (simp add: ToLower_dot_hpp)
  qed
  then show ?thesis
    by (simp add: fileLang_def getLangByExt_def ToLower_idem)
qed

text \<open>
  Claim C1 says that for every pair of a language and one of its extensions in
  \<^verbatim>\<open>langExts\<close>, a directory with one file whose name ends with the extension is detected
  as that language. \<^verbatim>\<open>langExts\<close> lists \<^verbatim>\<open>hpp\<close>, without a dot, for \<^verbatim>\<open>c++\<close>. The code
  does not detect \<^verbatim>\<open>c++\<close> there: \<^verbatim>\<open>filepath.Ext\<close> returns the empty string or a string
  that starts with a dot, so for a directory with one file whose name ends with
  \<^verbatim>\<open>hpp\<close>, whatever comes before, \<^verbatim>\<open>DetectDirLang\<close> returns \<open>NotFoundError\<close>.
\<close>

theorem C1_hpp_not_detected:
  assumes "runtime sched order"
    and "readDir dir = Inr [\<lparr>Name = pre @ ''hpp'', IsDir = False\<rparr>]"
  shows "DetectDirLang readDir sched order dir = ('''', Some NotFoundError) \<and>
    (\<exists>exts. (''c++'', exts) \<in> set langExts \<and> ''hpp'' \<in> set exts)"
proof -
  have "\<forall>f\<in>set [\<lparr>Name = pre @ ''hpp'', IsDir = False\<rparr>]. IsDir f \<or> fileLang f = ''''"
    by (simp add: fileLang_hpp)
  then have "\<forall>l. l \<noteq> '''' \<longrightarrow> votes [\<lparr>Name = pre @ ''hpp'', IsDir = False\<rparr>] l = 0"
    by (simp only: no_votes_iff)
  with DetectDirLang_none [of sched order readDir dir "[\<lparr>Name = pre @ ''hpp'', IsDir = False\<rparr>]"] assms
  have "DetectDirLang readDir sched order dir = ('''', Some NotFoundError)"
    by blast
  moreover have "(''c++'', [''.h'', ''.c'', ''.cpp'', ''.cxx'', ''hpp'']) \<in> set langExts"
    by (simp add: langExts_def)
  then have "\<exists>exts. (''c++'', exts) \<in> set langExts \<and> ''hpp'' \<in> set exts"
    by force
  ultimately show ?thesis
    by blast
qed

theorem C1_hpp_not_detected_witness:
  "DetectDirLang (\<lambda>d. Inr [\<lparr>Name = ''vector.hpp'', IsDir = False\<rparr>] :: unit + FileInfo list)
     (\<lambda>i. langExts) (\<lambda>m. m) ''d'' = ('''', Some NotFoundError) \<and>
   Ext ''vector.hpp'' = ''.hpp'' \<and> getLangByExt langExts ''.hpp'' = ''''"
proof -
  let ?rd = "\<lambda>d. Inr [\<lparr>Name = ''vector.hpp'', IsDir = False\<rparr>] :: unit + FileInfo list"
  have rd: "?rd ''d'' = Inr [\<lparr>Name = ''vector.'' @ ''hpp'', IsDir = False\<rparr>]"
    by simp
  from C1_hpp_not_detected [of "\<lambda>i. langExts" "\<lambda>m. m" ?rd "''d''" "''vector.''", OF runtime_id rd]
  have "DetectDirLang ?rd (\<lambda>i. langExts) (\<lambda>m. m) ''d'' = ('''', Some NotFoundError)"
    by blast
  moreover have "Ext ''vector.hpp'' = ''.hpp''"
    by (simp add: Ext_def)
  moreover have "getLangByExt langExts ''.hpp'' = ''''"
    by code_simp
  ultimately show ?thesis
    by blast
qed

lemma Ext_loop_dot:
  "CHR ''.'' \<notin> set s \<Longrightarrow> CHR ''/'' \<notin> set s \<Longrightarrow>
    Ext_loop (rev s @ CHR ''.'' # rp) suf = CHR ''.'' # s @ suf"
  by (induction s arbitrary: suf rule: rev_induct) auto

lemma Ext_dotted:
  "CHR ''.'' \<notin> set s \<Longrightarrow> CHR ''/'' \<notin> set s \<Longrightarrow> Ext (pre @ CHR ''.'' # s) = CHR ''.'' # s"
  using Ext_loop_dot [of s "rev pre" "''''"] by (simp add: Ext_def)

lemma langExts_dotted:
  "list_all (\<lambda>x. x = ''hpp'' \<or>
      (x \<noteq> '''' \<and> hd x = CHR ''.'' \<and> CHR ''.'' \<notin> set (tl x) \<and> CHR ''/'' \<notin> set (tl x)))
    (concat (map snd langExts))"
  by code_simp

lemma langExts_resolve:
  "list_all (\<lambda>e. fst e \<noteq> '''' \<and>
      list_all (\<lambda>x. getLangByExt langExts (ToLower x) = fst e) (snd e)) langExts"
  by code_simp

text \<open>
  The part of claim C1 that the code keeps: for every pair of a language and one of its
  extensions in \<^verbatim>\<open>langExts\<close>, the entry \<^verbatim>\<open>hpp\<close> apart, a directory with one file whose
  name ends with the extension is detected as that language.
\<close>

theorem round_trip_dotted:
  assumes "runtime sched order" and "(l, exts) \<in> set langExts" and "x \<in> set exts"
    and "x \<noteq> ''hpp''" and "readDir dir = Inr [\<lparr>Name = pre @ x, IsDir = False\<rparr>]"
  shows "DetectDirLang readDir sched order dir = (l, None)"
proof -
  let ?f = "\<lparr>Name = pre @ x, IsDir = False\<rparr>"
  from assms(2,3) have "x \<in> set (concat (map snd langExts))"
    by force
  with langExts_dotted assms(4)
  have "x \<noteq> '''' \<and> hd x = CHR ''.'' \<and> CHR ''.'' \<notin> set (tl x) \<and> CHR ''/'' \<notin> set (tl x)"
    unfolding list_all_iff by blast
  then have "Ext (pre @ CHR ''.'' # tl x) = CHR ''.'' # tl x" and "x = CHR ''.'' # tl x"
    by (simp_all add: Ext_dotted) (cases x, simp_all)
  then have ext: "Ext (pre @ x) = x"
    by simp
  from langExts_resolve assms(2)
  have "fst (l, exts) \<noteq> '''' \<and>
      list_all (\<lambda>x. getLangByExt langExts (ToLower x) = fst (l, exts)) (snd (l, exts))"
    unfolding list_all_iff [of _ langExts] by blast
  with assms(3) have l: "l \<noteq> ''''" and "getLangByExt langExts (ToLower x) = l"
    by (simp_all add: list_all_iff)
  then have fl: "fileLang ?f = l"
    by (simp add: fileLang_def ext)
  have v: "votes [?f] k = (if k = l then 1 else 0)" for k
    using fl by (auto simp: votes_def)
  from DetectDirLang_some [of sched order readDir dir "[?f]" l] assms(1,5) l v [of l]
  obtain k where k: "DetectDirLang readDir sched order dir = (k, None)" "0 < votes [?f] k"
    by auto
  from k(2) have "k = l"
    by (simp add: v split: if_splits)
  with k(1) show ?thesis
    by simp
qed

theorem round_trip_dotted_witness:
  "DetectDirLang (\<lambda>d. Inr [\<lparr>Name = ''lib.rs'', IsDir = False\<rparr>] :: unit + FileInfo list)
     (\<lambda>i. rev langExts) rev ''d'' = (''rust'', None) \<and>
   (''rust'', [''.rs'']) \<in> set langExts"
proof -
  let ?rd = "\<lambda>d. Inr [\<lparr>Name = ''lib.rs'', IsDir = False\<rparr>] :: unit + FileInfo list"
  have rd: "?rd ''d'' = Inr [\<lparr>Name = ''lib'' @ ''.rs'', IsDir = False\<rparr>]"
    by simp
  have entry: "(''rust'', [''.rs'']) \<in> set langExts"
    by (simp add: langExts_def)
  have x: "''.rs'' \<in> set [''.rs'']" "''.rs'' \<noteq> ''hpp''"
    by simp_all
  from round_trip_dotted [of "\<lambda>i. rev langExts" rev "''rust''" "[''.rs'']" "''.rs''" ?rd "''d''" "''lib''",
      OF runtime_rev entry x rd]
  show ?thesis
    using entry by simp
qed

end
